theory Spec2Isabelle
  imports Complex_Main "HOL-Library.Word"
begin

unbundle bit_operations_syntax

section \<open>Video frame redundancy detection\<close>

text \<open>
  A shallow embedding of \<^verbatim>\<open>Video_Frame_Redundancy_Detection.py\<close>: the frame encoder
  \<^verbatim>\<open>frame_to_24int\<close>, the similarity metric \<^verbatim>\<open>is_similar_arr\<close> and the scanner
  \<^verbatim>\<open>find_redundant_ranges\<close>.

  Conventions of the embedding.
  \<^item> A numpy \<^verbatim>\<open>uint32\<close> array is a \<open>32 word list\<close>, a \<^verbatim>\<open>uint8\<close> array an \<open>8 word list\<close>.
  \<^item> Python integers are \<open>int\<close>; Python exceptions are values of the type \<open>error\<close>, and a
    computation that may raise returns \<open>error + 'a\<close> with \<open>Inl\<close> the exception.
  \<^item> A float is a real number, positive infinity or nan, and the constant \<^verbatim>\<open>0.70\<close> is the
    rational \<open>7/10\<close>. \<^verbatim>\<open>np.count_nonzero\<close> returns a NumPy integer scalar (numpy 2.3 and
    later), so \<^verbatim>\<open>matched / zeros.size\<close> is NumPy's division, which does not raise on a zero
    divisor: \<open>0 / 0\<close> is nan, and a comparison with nan is false.
  \<^item> \<^verbatim>\<open>xor.view(np.uint8)\<close> reinterprets the four bytes of every element in the
    machine's byte order, which is little-endian on the platforms numpy runs on.
  \<^item> The lines \<^verbatim>\<open>== Base frame: ... ==\<close> and \<^verbatim>\<open>Comparing frame ... \<close> that the scanner
    prints are kept as a trace of \<open>event\<close>s; the other printed lines are dropped.
  \<^item> The \<^verbatim>\<open>while\<close> loop of the scanner takes a fuel argument that bounds the number of
    its iterations; running out of fuel is the value \<open>None\<close>.
\<close>

subsection \<open>Exceptions and Python primitives\<close>

datatype error = ValueError | IndexError

text \<open>\<^verbatim>\<open>xs[i]\<close> on a Python list: an index below zero counts from the end.\<close>

definition getitem :: "'a list \<Rightarrow> int \<Rightarrow> error + 'a" where
  "getitem xs i =
     (if 0 \<le> i \<and> i < int (length xs) then Inr (xs ! nat i)
      else if i < 0 \<and> - int (length xs) \<le> i then Inr (xs ! nat (int (length xs) + i))
      else Inl IndexError)"

text \<open>A \<^verbatim>\<open>float64\<close> value that a division of two counts can give.\<close>

datatype np_float = Float_num real | Float_inf | Float_nan

text \<open>\<^verbatim>\<open>m / n\<close> with \<open>m\<close> a NumPy integer scalar: a zero divisor gives nan or infinity.\<close>

definition true_divide :: "nat \<Rightarrow> nat \<Rightarrow> np_float" where
  "true_divide m n =
     (if n \<noteq> 0 then Float_num (real m / real n)
      else if m = 0 then Float_nan
      else Float_inf)"

text \<open>\<^verbatim>\<open>x >= r\<close> with \<open>r\<close> a Python float: false when \<open>x\<close> is nan.\<close>

definition greater_equal :: "np_float \<Rightarrow> real \<Rightarrow> bool" where
  "greater_equal x r =
     (case x of
        Float_num q \<Rightarrow> r \<le> q
      | Float_inf \<Rightarrow> True
      | Float_nan \<Rightarrow> False)"

text \<open>\<^verbatim>\<open>int(x)\<close> on a float: truncation towards zero.\<close>

definition int_of_float :: "real \<Rightarrow> int" where
  "int_of_float x = (if 0 \<le> x then \<lfloor>x\<rfloor> else \<lceil>x\<rceil>)"

subsection \<open>Configuration\<close>

definition THRESHOLD_ZERO_BITS :: int where
  "THRESHOLD_ZERO_BITS = 17"

definition SIMILARITY_RATIO :: real where
  "SIMILARITY_RATIO = 70 / 100"

subsection \<open>Frame encoder\<close>

record pixel =
  red :: "8 word"
  green :: "8 word"
  blue :: "8 word"

type_synonym frame = "pixel list list"
type_synonym packed = "32 word list"

text \<open>\<^verbatim>\<open>frame[:, :, c].astype(np.uint32)\<close>: one channel of every pixel, widened.\<close>

definition plane :: "(pixel \<Rightarrow> 8 word) \<Rightarrow> frame \<Rightarrow> 32 word list list" where
  "plane c frame = map (map (\<lambda>p. ucast (c p))) frame"

text \<open>An elementwise operation on two arrays of the same shape.\<close>

definition elementwise ::
  "(32 word \<Rightarrow> 32 word \<Rightarrow> 32 word) \<Rightarrow> 32 word list list \<Rightarrow> 32 word list list \<Rightarrow> 32 word list list"
where
  "elementwise f A B = map2 (map2 f) A B"

definition shift_left :: "nat \<Rightarrow> 32 word list list \<Rightarrow> 32 word list list" where
  "shift_left n A = map (map (push_bit n)) A"

definition ravel :: "'a list list \<Rightarrow> 'a list" where
  "ravel A = concat A"

definition frame_to_24int :: "frame \<Rightarrow> packed" where
  "frame_to_24int frame =
     (let r = plane red frame;
          g = plane green frame;
          b = plane blue frame
      in ravel (elementwise (OR) (elementwise (OR) (shift_left 16 r) (shift_left 8 g)) b))"

subsection \<open>Similarity metric\<close>

text \<open>
  \<^verbatim>\<open>np.bitwise_xor(a, b)\<close> on one-dimensional arrays: shapes broadcast when the lengths
  agree or one length is 1, and the call raises otherwise.
\<close>

definition bitwise_xor :: "packed \<Rightarrow> packed \<Rightarrow> error + packed" where
  "bitwise_xor a b =
     (if length a = length b then Inr (map2 (XOR) a b)
      else if length a = 1 then Inr (map (\<lambda>y. hd a XOR y) b)
      else if length b = 1 then Inr (map (\<lambda>x. x XOR hd b) a)
      else Inl ValueError)"

text \<open>\<^verbatim>\<open>xor.view(np.uint8)\<close>: every 32-bit element becomes its four bytes, lowest first.\<close>

definition bytes_of_uint32 :: "32 word \<Rightarrow> 8 word list" where
  "bytes_of_uint32 w = map (\<lambda>k. ucast (drop_bit (8 * k) w)) [0, 1, 2, 3]"

definition view_uint8 :: "packed \<Rightarrow> 8 word list" where
  "view_uint8 ws = concat (map bytes_of_uint32 ws)"

text \<open>\<^verbatim>\<open>np.unpackbits\<close>: every byte becomes its eight bits, highest first.\<close>

definition bits_of_byte :: "8 word \<Rightarrow> bool list" where
  "bits_of_byte c = map (bit c) [7, 6, 5, 4, 3, 2, 1, 0]"

definition unpackbits :: "8 word list \<Rightarrow> bool list" where
  "unpackbits cs = concat (map bits_of_byte cs)"

text \<open>
  \<^verbatim>\<open>.reshape(-1, n)\<close>: the flat array is cut into consecutive rows of \<open>n\<close> elements; the
  call raises when the size is not a multiple of \<open>n\<close>.
\<close>

function rows_of :: "nat \<Rightarrow> 'a list \<Rightarrow> 'a list list" where
  "rows_of n xs = (if n = 0 \<or> xs = [] then [] else take n xs # rows_of n (drop n xs))"
  by pat_completeness auto
termination
  by (relation "measure (\<lambda>(n, xs). length xs)") auto

declare rows_of.simps [simp del]

definition reshape_rows :: "nat \<Rightarrow> 'a list \<Rightarrow> error + 'a list list" where
  "reshape_rows n xs = (if length xs mod n = 0 then Inr (rows_of n xs) else Inl ValueError)"

text \<open>\<^verbatim>\<open>.sum(axis=1)\<close> on an array of bits.\<close>

definition row_sums :: "bool list list \<Rightarrow> nat list" where
  "row_sums rows = map (\<lambda>row. sum_list (map (\<lambda>b. if b then 1 else 0) row)) rows"

text \<open>Lines 38 to 40: the array \<^verbatim>\<open>zeros\<close>.\<close>

definition zeros_of :: "packed \<Rightarrow> error + int list" where
  "zeros_of x =
     (case reshape_rows 24 (unpackbits (view_uint8 x)) of
        Inl e \<Rightarrow> Inl e
      | Inr rows \<Rightarrow> Inr (map (\<lambda>ones. 24 - int ones) (row_sums rows)))"

text \<open>\<^verbatim>\<open>np.count_nonzero(zeros >= t)\<close>.\<close>

definition count_matched :: "int \<Rightarrow> int list \<Rightarrow> nat" where
  "count_matched t zeros = length (filter (\<lambda>z. t \<le> z) zeros)"

text \<open>Lines 38 to 41: the pair of \<^verbatim>\<open>matched\<close> and \<^verbatim>\<open>zeros.size\<close>.\<close>

definition matched_count :: "int \<Rightarrow> packed \<Rightarrow> packed \<Rightarrow> error + nat \<times> nat" where
  "matched_count t a b =
     (case bitwise_xor a b of
        Inl e \<Rightarrow> Inl e
      | Inr x \<Rightarrow>
          (case zeros_of x of
             Inl e \<Rightarrow> Inl e
           | Inr zeros \<Rightarrow> Inr (count_matched t zeros, length zeros)))"

text \<open>
  The metric with the two module constants as arguments, and \<^verbatim>\<open>is_similar_arr\<close> itself,
  which reads them from the module.
\<close>

definition is_similar_with :: "int \<Rightarrow> real \<Rightarrow> packed \<Rightarrow> packed \<Rightarrow> error + bool" where
  "is_similar_with t r a b =
     (case matched_count t a b of
        Inl e \<Rightarrow> Inl e
      | Inr (matched, n) \<Rightarrow> Inr (greater_equal (true_divide matched n) r))"

definition is_similar_arr :: "packed \<Rightarrow> packed \<Rightarrow> error + bool" where
  "is_similar_arr a b = is_similar_with THRESHOLD_ZERO_BITS SIMILARITY_RATIO a b"

text \<open>
  The metric as the specification words it: a pixel is matched when the low 24 bits of
  its XOR value hold at least \<open>t\<close> zero bits, and the ratio is taken over the pixels.
\<close>

definition spec_zeros :: "32 word \<Rightarrow> int" where
  "spec_zeros x = 24 - int (length (filter (bit x) [0..<24]))"

definition spec_matched :: "int \<Rightarrow> packed \<Rightarrow> packed \<Rightarrow> nat" where
  "spec_matched t a b = length (filter (\<lambda>(x, y). t \<le> spec_zeros (x XOR y)) (zip a b))"

definition spec_is_similar :: "int \<Rightarrow> real \<Rightarrow> packed \<Rightarrow> packed \<Rightarrow> bool" where
  "spec_is_similar t r a b = (r \<le> real (spec_matched t a b) / real (length a))"

subsection \<open>Offset ladder\<close>

function ladder_loop :: "int \<Rightarrow> int list \<Rightarrow> int list" where
  "ladder_loop step offs = (if 1 \<le> step then ladder_loop (step div 2) (offs @ [step]) else offs)"
  by pat_completeness auto
termination
  by (relation "measure (\<lambda>(step, offs). nat step)") auto

declare ladder_loop.simps [simp del]

text \<open>Lines 58 to 63; \<^verbatim>\<open>offs[-1]\<close> raises on an empty list.\<close>

definition build_offsets :: "real \<Rightarrow> error + int list" where
  "build_offsets fps =
     (let offs = ladder_loop (int_of_float fps) []
      in if offs = [] then Inl IndexError
         else if last offs \<noteq> 1 then Inr (offs @ [1])
         else Inr offs)"

subsection \<open>Redundancy scanner\<close>

datatype event = BaseFrame int | Comparing int int

record scan_state =
  base :: int
  redundant :: "int set"

text \<open>Line 72: both frames are fetched, then compared.\<close>

definition compare_frames :: "packed list \<Rightarrow> int \<Rightarrow> int \<Rightarrow> error + bool" where
  "compare_frames fs b c =
     (case getitem fs b of
        Inl e \<Rightarrow> Inl e
      | Inr fb \<Rightarrow>
          (case getitem fs c of
             Inl e \<Rightarrow> Inl e
           | Inr fc \<Rightarrow> is_similar_arr fb fc))"

text \<open>
  The \<^verbatim>\<open>for ... else\<close> loop over the candidates: the first candidate similar to the base,
  or \<open>None\<close> when the list is exhausted, together with the comparisons printed.
\<close>

fun probe :: "packed list \<Rightarrow> int \<Rightarrow> int list \<Rightarrow> event list \<times> (error + int option)" where
  "probe fs b [] = ([], Inr None)"
| "probe fs b (c # cs) =
     (case compare_frames fs b c of
        Inl e \<Rightarrow> ([Comparing b c], Inl e)
      | Inr True \<Rightarrow> ([Comparing b c], Inr (Some c))
      | Inr False \<Rightarrow> (case probe fs b cs of (evs, r) \<Rightarrow> (Comparing b c # evs, r)))"

text \<open>Line 67: the candidates of a base, in the order of the offsets.\<close>

definition candidates_of :: "packed list \<Rightarrow> int list \<Rightarrow> int \<Rightarrow> int list" where
  "candidates_of fs offs b = [b + off. off \<leftarrow> offs, b + off < int (length fs)]"

text \<open>Lines 66 to 83: the body of the \<^verbatim>\<open>while\<close> loop.\<close>

definition scan_iteration ::
  "packed list \<Rightarrow> int list \<Rightarrow> scan_state \<Rightarrow> event list \<times> (error + scan_state)"
where
  "scan_iteration fs offs st =
     (let N = int (length fs);
          candidates = candidates_of fs offs (base st)
      in case probe fs (base st) candidates of
           (evs, Inl e) \<Rightarrow> (BaseFrame (base st) # evs, Inl e)
         | (evs, Inr (Some cand)) \<Rightarrow>
             (BaseFrame (base st) # evs,
              Inr \<lparr>base = cand + 1, redundant = redundant st \<union> {base st + 1 .. cand}\<rparr>)
         | (evs, Inr None) \<Rightarrow>
             (BaseFrame (base st) # evs,
              Inr \<lparr>base = min (base st + 10) (N - 1), redundant = redundant st\<rparr>))"

text \<open>Line 65: the \<^verbatim>\<open>while\<close> loop, at most \<open>fuel\<close> iterations of it.\<close>

fun scan_loop ::
  "nat \<Rightarrow> packed list \<Rightarrow> int list \<Rightarrow> scan_state \<Rightarrow> (event list \<times> (error + int set)) option"
where
  "scan_loop fuel fs offs st =
     (if base st < int (length fs) - 1 then
        (case fuel of
           0 \<Rightarrow> None
         | Suc k \<Rightarrow>
             (case scan_iteration fs offs st of
                (evs, Inl e) \<Rightarrow> Some (evs, Inl e)
              | (evs, Inr st') \<Rightarrow>
                  (case scan_loop k fs offs st' of
                     None \<Rightarrow> None
                   | Some (evs', r) \<Rightarrow> Some (evs @ evs', r))))
      else Some ([], Inr (redundant st)))"

declare scan_loop.simps [simp del]

definition find_redundant_ranges ::
  "nat \<Rightarrow> packed list \<Rightarrow> real \<Rightarrow> (event list \<times> (error + int list)) option"
where
  "find_redundant_ranges fuel int_frames fps =
     (case build_offsets fps of
        Inl e \<Rightarrow> Some ([], Inl e)
      | Inr offs \<Rightarrow>
          (case scan_loop fuel int_frames offs \<lparr>base = 0, redundant = {}\<rparr> of
             None \<Rightarrow> None
           | Some (evs, Inl e) \<Rightarrow> Some (evs, Inl e)
           | Some (evs, Inr marked) \<Rightarrow> Some (evs, Inr (sorted_list_of_set marked))))"

text \<open>The outer iterations a trace records.\<close>

fun is_base_event :: "event \<Rightarrow> bool" where
  "is_base_event (BaseFrame b) = True"
| "is_base_event (Comparing b c) = False"

section \<open>Auxiliary facts\<close>

subsection \<open>The similarity metric\<close>

lemma length_view_uint8: "length (view_uint8 ws) = 4 * length ws"
  by (induction ws) (simp_all add: view_uint8_def bytes_of_uint32_def)

lemma length_unpackbits: "length (unpackbits cs) = 8 * length cs"
  by (induction cs) (simp_all add: unpackbits_def bits_of_byte_def)

lemma length_rows_of:
  "0 < n \<Longrightarrow> n dvd length xs \<Longrightarrow> length (rows_of n xs) = length xs div n"
proof (induction n xs rule: rows_of.induct)
  case (1 n xs)
  show ?case
  proof (cases "xs = []")
    case True
    then show ?thesis by (simp add: rows_of.simps)
  next
    case False
    from 1(3) obtain k where k: "length xs = n * k" by (auto simp: dvd_def)
    with False obtain j where j: "k = Suc j" by (cases k) auto
    have dr: "length (drop n xs) = n * j" using k j by simp
    then have "n dvd length (drop n xs)" by simp
    with 1 False have "length (rows_of n (drop n xs)) = length (drop n xs) div n"
      by simp
    with dr 1(2) have "length (rows_of n (drop n xs)) = j" by simp
    moreover have "length xs div n = Suc j" using k j 1(2) by simp
    ultimately show ?thesis
      using False 1(2) by (subst rows_of.simps) simp
  qed
qed

lemma rows_of_subset:
  "row \<in> set (rows_of n xs) \<Longrightarrow> set row \<subseteq> set xs"
proof (induction n xs rule: rows_of.induct)
  case (1 n xs)
  show ?case
  proof (cases "n = 0 \<or> xs = []")
    case True
    with 1(2) show ?thesis by (simp add: rows_of.simps)
  next
    case False
    with 1(2) have "row = take n xs \<or> row \<in> set (rows_of n (drop n xs))"
      by (subst (asm) rows_of.simps) auto
    then show ?thesis
    proof
      assume "row = take n xs"
      then show ?thesis by (auto dest: in_set_takeD)
    next
      assume "row \<in> set (rows_of n (drop n xs))"
      with 1(1) False have "set row \<subseteq> set (drop n xs)" by blast
      then show ?thesis by (auto dest: in_set_dropD)
    qed
  qed
qed

lemma zeros_of_Inr:
  assumes "3 dvd length x"
  shows "\<exists>zs. zeros_of x = Inr zs \<and> length zs = 4 * length x div 3"
proof -
  from assms obtain k where k: "length x = 3 * k" by (auto simp: dvd_def)
  have len: "length (unpackbits (view_uint8 x)) = 24 * (4 * k)"
    by (simp add: length_unpackbits length_view_uint8 k)
  then have "length (rows_of 24 (unpackbits (view_uint8 x))) = 4 * k"
    using length_rows_of [of 24 "unpackbits (view_uint8 x)"] by simp
  then show ?thesis
    using len by (simp add: zeros_of_def reshape_rows_def row_sums_def k)
qed

lemma zeros_of_Inl:
  assumes "\<not> 3 dvd length x"
  shows "zeros_of x = Inl ValueError"
proof -
  have "length (unpackbits (view_uint8 x)) = 32 * length x"
    by (simp add: length_unpackbits length_view_uint8)
  moreover have "32 * length x mod 24 \<noteq> 0"
  proof
    assume "32 * length x mod 24 = 0"
    then have "24 dvd 32 * length x" by presburger
    then have "3 dvd length x" by presburger
    with assms show False ..
  qed
  ultimately show ?thesis by (simp add: zeros_of_def reshape_rows_def)
qed

lemma bitwise_xor_same_length:
  "length a = length b \<Longrightarrow> bitwise_xor a b = Inr (map2 (XOR) a b)"
  by (simp add: bitwise_xor_def)

lemma is_similar_with_returns:
  assumes "length a = length b" "3 dvd length a"
  shows "\<exists>v. is_similar_with t r a b = Inr v"
proof -
  have "3 dvd length (map2 (XOR) a b)" using assms by simp
  from zeros_of_Inr [OF this] obtain zs where
    zs: "zeros_of (map2 (XOR) a b) = Inr zs" by blast
  with assms(1) show ?thesis
    by (simp add: is_similar_with_def matched_count_def bitwise_xor_same_length)
qed

lemma is_similar_with_reshape_raises:
  assumes "length a = length b" "\<not> 3 dvd length a"
  shows "is_similar_with t r a b = Inl ValueError"
proof -
  have "\<not> 3 dvd length (map2 (XOR) a b)" using assms by simp
  from zeros_of_Inl [OF this] assms(1) show ?thesis
    by (simp add: is_similar_with_def matched_count_def bitwise_xor_same_length)
qed

lemma is_similar_with_empty: "is_similar_with t r [] [] = Inr False"
  by (simp add: is_similar_with_def matched_count_def bitwise_xor_def zeros_of_def
      reshape_rows_def unpackbits_def view_uint8_def rows_of.simps row_sums_def
      count_matched_def true_divide_def greater_equal_def)

lemma map2_xor_self: "map2 (XOR) p p = replicate (length p) (0 :: 32 word)"
  by (induction p) simp_all

lemma view_uint8_zero: "set (view_uint8 (replicate n 0)) \<subseteq> {0}"
  by (induction n) (simp_all add: view_uint8_def bytes_of_uint32_def)

lemma unpackbits_zero: "set cs \<subseteq> {0} \<Longrightarrow> set (unpackbits cs) \<subseteq> {False}"
  by (induction cs) (simp_all add: unpackbits_def bits_of_byte_def)

lemma sum_bits_False:
  "set row \<subseteq> {False} \<Longrightarrow> sum_list (map (\<lambda>b. if b then 1 else 0) row) = (0 :: nat)"
  by (induction row) simp_all

lemma zeros_of_replicate_zero:
  assumes "zeros_of (replicate n 0) = Inr zs"
  shows "\<forall>z\<in>set zs. z = 24"
proof -
  let ?bits = "unpackbits (view_uint8 (replicate n 0))"
  have bits: "set ?bits \<subseteq> {False}"
    by (rule unpackbits_zero) (rule view_uint8_zero)
  have "\<forall>row\<in>set (rows_of 24 ?bits). set row \<subseteq> {False}"
    using rows_of_subset [of _ 24 ?bits] bits by blast
  then have "\<forall>s\<in>set (row_sums (rows_of 24 ?bits)). s = 0"
    by (auto simp: row_sums_def sum_bits_False)
  with assms show ?thesis
    by (auto simp: zeros_of_def reshape_rows_def split: if_splits)
qed

lemma count_matched_all:
  "\<forall>z\<in>set zs. t \<le> z \<Longrightarrow> count_matched t zs = length zs"
  by (simp add: count_matched_def)

lemma is_similar_with_self:
  assumes "t \<le> 24" "r \<le> 1" "p \<noteq> []" "3 dvd length p"
  shows "is_similar_with t r p p = Inr True"
proof -
  have x: "bitwise_xor p p = Inr (replicate (length p) 0)"
    by (simp add: bitwise_xor_def map2_xor_self)
  have "3 dvd length (replicate (length p) (0 :: 32 word))" using assms(4) by simp
  from zeros_of_Inr [OF this] obtain zs where
    zs: "zeros_of (replicate (length p) 0) = Inr zs" "length zs = 4 * length p div 3"
    by auto
  from assms(3,4) obtain k where "length p = 3 * k" "0 < k" by (cases p) (auto simp: dvd_def)
  with zs(2) have ne: "length zs \<noteq> 0" by simp
  from zeros_of_replicate_zero [OF zs(1)] assms(1) have "\<forall>z\<in>set zs. t \<le> z" by auto
  then have "count_matched t zs = length zs" by (rule count_matched_all)
  with x zs(1) ne assms(2) show ?thesis
    by (simp add: is_similar_with_def matched_count_def true_divide_def greater_equal_def)
qed

lemma count_matched_antitone:
  "t1 \<le> t2 \<Longrightarrow> count_matched t2 zs \<le> count_matched t1 zs"
  by (induction zs) (auto simp: count_matched_def)

lemma matched_count_antitone:
  assumes "t1 \<le> t2" "matched_count t2 a b = Inr (m2, n)"
  shows "\<exists>m1. matched_count t1 a b = Inr (m1, n) \<and> m2 \<le> m1"
  using assms count_matched_antitone [OF assms(1)]
  by (auto simp: matched_count_def split: sum.splits)

lemma is_similar_with_ratio_antitone:
  assumes "r1 \<le> r2" "is_similar_with t r2 a b = Inr True"
  shows "is_similar_with t r1 a b = Inr True"
  using assms
  by (auto simp: is_similar_with_def greater_equal_def
      split: sum.splits prod.splits np_float.splits)

subsection \<open>The offset ladder\<close>

lemma ladder_loop_acc: "ladder_loop step offs = offs @ ladder_loop step []"
proof (induction "nat step" arbitrary: step offs rule: less_induct)
  case less
  show ?case
  proof (cases "1 \<le> step")
    case True
    then have smaller: "nat (step div 2) < nat step" by simp
    have "ladder_loop step offs = ladder_loop (step div 2) (offs @ [step])"
      using True by (subst ladder_loop.simps) simp
    also have "\<dots> = (offs @ [step]) @ ladder_loop (step div 2) []"
      by (rule less [OF smaller])
    also have "\<dots> = offs @ ladder_loop (step div 2) ([] @ [step])"
      using less [OF smaller, of "[] @ [step]"] by simp
    also have "ladder_loop (step div 2) ([] @ [step]) = ladder_loop step []"
      using True by (subst (2) ladder_loop.simps) simp
    finally show ?thesis .
  next
    case False
    then show ?thesis by (simp add: ladder_loop.simps)
  qed
qed

lemma ladder_unfold:
  "1 \<le> step \<Longrightarrow> ladder_loop step [] = step # ladder_loop (step div 2) []"
proof -
  assume "1 \<le> step"
  then have "ladder_loop step [] = ladder_loop (step div 2) ([] @ [step])"
    by (subst ladder_loop.simps) simp
  also have "\<dots> = ([] @ [step]) @ ladder_loop (step div 2) []"
    by (rule ladder_loop_acc)
  finally show ?thesis by simp
qed

lemma ladder_stop: "\<not> 1 \<le> step \<Longrightarrow> ladder_loop step [] = []"
  by (subst ladder_loop.simps) simp


lemma ladder_props:
  "1 \<le> step \<Longrightarrow>
     hd (ladder_loop step []) = step \<and> ladder_loop step [] \<noteq> [] \<and>
     last (ladder_loop step []) = 1 \<and> sorted_wrt (>) (ladder_loop step []) \<and>
     (\<forall>x\<in>set (ladder_loop step []). 1 \<le> x \<and> x \<le> step)"
proof (induction "nat step" arbitrary: step rule: less_induct)
  case less
  note unf = ladder_unfold [OF less.prems]
  show ?case
  proof (cases "step = 1")
    case True
    have "ladder_loop (step div 2) [] = []"
      using True by (intro ladder_stop) simp
    with unf True show ?thesis by simp
  next
    case False
    with less.prems have h: "nat (step div 2) < nat step" "1 \<le> step div 2" by simp_all
    let ?l = "ladder_loop (step div 2) []"
    from less.hyps [OF h] have ih:
      "?l \<noteq> []" "last ?l = 1" "sorted_wrt (>) ?l" "\<forall>x\<in>set ?l. 1 \<le> x \<and> x \<le> step div 2"
      by simp_all
    have lt: "step div 2 < step" using less.prems by simp
    have below: "\<forall>x\<in>set ?l. x < step" using ih(4) lt by auto
    have c1: "hd (step # ?l) = step" by simp
    have c3: "last (step # ?l) = 1" using ih(1,2) by simp
    have c4: "sorted_wrt (>) (step # ?l)" using ih(3) below by simp
    have c5: "\<forall>x\<in>set (step # ?l). 1 \<le> x \<and> x \<le> step"
      using ih(4) lt less.prems by auto
    from c1 c3 c4 c5 show ?thesis unfolding unf by blast
  qed
qed

lemma build_offsets_ladder:
  assumes "1 \<le> int_of_float fps"
  shows "build_offsets fps = Inr (ladder_loop (int_of_float fps) [])"
proof -
  let ?l = "ladder_loop (int_of_float fps) []"
  from ladder_props [OF assms] have "?l \<noteq> []" "last ?l = 1" by blast+
  then show ?thesis unfolding build_offsets_def Let_def by (simp only: if_False not_not refl if_True not_True_eq_False)
qed

lemma int_of_float_floor: "1 \<le> \<lfloor>fps\<rfloor> \<Longrightarrow> int_of_float fps = \<lfloor>fps\<rfloor>"
  by (simp add: int_of_float_def)

lemma sorted_wrt_butlast_gt:
  "sorted_wrt (>) (xs :: int list) \<Longrightarrow> xs \<noteq> [] \<Longrightarrow> \<forall>x\<in>set (butlast xs). last xs < x"
proof -
  assume a: "sorted_wrt (>) xs" "xs \<noteq> []"
  then have "sorted_wrt (>) (butlast xs @ [last xs])" by simp
  then show ?thesis by (simp only: sorted_wrt_append) simp
qed

subsection \<open>The frame encoder\<close>

lemma pack_take_bit:
  "take_bit 24 ((push_bit 16 (ucast (r :: 8 word)) OR push_bit 8 (ucast (g :: 8 word))) OR ucast (b :: 8 word) :: 32 word)
     = (push_bit 16 (ucast (r :: 8 word)) OR push_bit 8 (ucast (g :: 8 word))) OR ucast (b :: 8 word)"
  by (rule bit_eqI) (auto simp: bit_simps dest: bit_imp_le_length)

lemma pack_bound:
  "(push_bit 16 (ucast (r :: 8 word)) OR push_bit 8 (ucast (g :: 8 word))) OR ucast (b :: 8 word)
     \<le> (0xFFFFFF :: 32 word)"
proof -
  let ?v = "(push_bit 16 (ucast r) OR push_bit 8 (ucast g)) OR ucast b :: 32 word"
  have "?v AND mask 24 = ?v"
    using pack_take_bit [of r g b] by (simp only: take_bit_eq_mask)
  then have "uint ?v < 2 ^ 24" by (simp only: mask_eq_iff)
  then show ?thesis by (simp add: word_le_def)
qed

lemma map2_same: "map2 f (map g xs) (map h xs) = map (\<lambda>x. f (g x) (h x)) xs"
  by (induction xs) simp_all

lemma frame_to_24int_eq:
  "frame_to_24int frame =
     concat (map (map (\<lambda>p. (push_bit 16 (ucast (red p)) OR push_bit 8 (ucast (green p))) OR ucast (blue p))) frame)"
  by (simp add: frame_to_24int_def ravel_def elementwise_def shift_left_def plane_def map2_same Let_def)

lemma length_concat_rows:
  "\<forall>row\<in>set xss. length row = w \<Longrightarrow> length (concat xss) = w * length xss"
  by (induction xss) simp_all

lemma nth_concat_rows:
  assumes "\<forall>row\<in>set xss. length row = w" "i < w * length xss"
  shows "concat xss ! i = xss ! (i div w) ! (i mod w)"
  using assms
proof (induction xss arbitrary: i)
  case Nil
  then show ?case by simp
next
  case (Cons x xss)
  then have lx: "length x = w" by simp
  show ?case
  proof (cases "i < w")
    case True
    then show ?thesis using lx by (simp add: nth_append)
  next
    case False
    then obtain j where j: "i = j + w" by (metis le_add_diff_inverse2 not_less)
    have wpos: "0 < w" using Cons.prems(2) by (cases w) auto
    have "j < w * length xss" using Cons.prems(2) j by simp
    with Cons have ih: "concat xss ! j = xss ! (j div w) ! (j mod w)" by simp
    have d: "i div w = Suc (j div w)" using j wpos by simp
    have m: "i mod w = j mod w" using j by simp
    have "concat (x # xss) ! i = concat xss ! j" using j lx by (simp add: nth_append)
    with ih d m show ?thesis by simp
  qed
qed

section \<open>Properties of the frame encoder\<close>

text \<open>
  Claim C9. For a frame of \<open>length frame\<close> rows of \<open>w\<close> pixels each, \<^verbatim>\<open>frame_to_24int\<close>
  returns exactly \<open>w * length frame\<close> integers; the value at flat index \<open>i\<close> is
  \<^verbatim>\<open>(red << 16) | (green << 8) | blue\<close> of the pixel in row \<open>i div w\<close> and column
  \<open>i mod w\<close>, that is of the \<open>i\<close>-th pixel in row-major order; and no value exceeds
  \<open>2^24 - 1\<close>.
\<close>

theorem frame_to_24int_packs:
  assumes "\<forall>row\<in>set frame. length row = w"
  shows "length (frame_to_24int frame) = w * length frame \<and>
         (\<forall>i < w * length frame.
            frame_to_24int frame ! i =
              (push_bit 16 (ucast (red (frame ! (i div w) ! (i mod w)))) OR
               push_bit 8 (ucast (green (frame ! (i div w) ! (i mod w))))) OR
               ucast (blue (frame ! (i div w) ! (i mod w)))) \<and>
         (\<forall>v\<in>set (frame_to_24int frame). v \<le> 0xFFFFFF)"
proof -
  let ?f = "\<lambda>p. (push_bit 16 (ucast (red p)) OR push_bit 8 (ucast (green p))) OR ucast (blue p) :: 32 word"
  let ?rows = "map (map ?f) frame"
  have eq: "frame_to_24int frame = concat ?rows" by (rule frame_to_24int_eq)
  have rows: "\<forall>row\<in>set ?rows. length row = w" using assms by simp
  have len: "length (frame_to_24int frame) = w * length frame"
    using length_concat_rows [OF rows] by (simp add: eq)
  have nth: "frame_to_24int frame ! i = ?f (frame ! (i div w) ! (i mod w))"
    if "i < w * length frame" for i
  proof -
    from that have wpos: "0 < w" by (cases w) auto
    from that have d: "i div w < length frame"
      by (simp add: less_mult_imp_div_less mult.commute)
    then have "frame ! (i div w) \<in> set frame" by simp
    with assms have m: "i mod w < length (frame ! (i div w))" using wpos by simp
    from that have "concat ?rows ! i = ?rows ! (i div w) ! (i mod w)"
      using nth_concat_rows [OF rows, of i] by simp
    with d m show ?thesis by (simp add: eq)
  qed
  have bound: "\<forall>v\<in>set (frame_to_24int frame). v \<le> 0xFFFFFF"
    unfolding eq using pack_bound by auto
  from len nth bound show ?thesis by blast
qed

text \<open>
  A frame of one row of two pixels satisfies the hypothesis of C9 and packs as expected.
\<close>

theorem frame_to_24int_packs_witness:
  "length [\<lparr>red = 10, green = 20, blue = 30\<rparr>, \<lparr>red = 255, green = 255, blue = 255\<rparr>] = 2 \<and>
   frame_to_24int [[\<lparr>red = 10, green = 20, blue = 30\<rparr>, \<lparr>red = 255, green = 255, blue = 255\<rparr>]]
     = [0x0A141E, 0xFFFFFF] \<and>
   length (frame_to_24int [[\<lparr>red = 10, green = 20, blue = 30\<rparr>, \<lparr>red = 255, green = 255, blue = 255\<rparr>]])
     = 2"
proof -
  let ?fr = "[[\<lparr>red = 10, green = 20, blue = 30\<rparr>, \<lparr>red = 255, green = 255, blue = 255\<rparr>]]"
  have h: "\<forall>row\<in>set ?fr. length row = 2" by simp
  have e: "frame_to_24int ?fr = [0x0A141E, 0xFFFFFF]" by code_simp
  have "length (frame_to_24int ?fr) = 2 * length ?fr"
    by (rule conjunct1 [OF frame_to_24int_packs [OF h]])
  then have l: "length (frame_to_24int ?fr) = 2" by simp
  have "length [\<lparr>red = 10, green = 20, blue = 30\<rparr>, \<lparr>red = 255, green = 255, blue = 255 :: 8 word\<rparr>] = 2"
    by simp
  with e l show ?thesis by (intro conjI)
qed

section \<open>Properties of the similarity metric\<close>

text \<open>
  Claim C1. The claim reads the metric pixel by pixel: pixel \<open>i\<close> is matched when the low
  24 bits of \<open>a[i] XOR b[i]\<close> hold at least the threshold of zero bits, and the ratio is over
  the pixels. The code regroups the 32 bits of every XOR value into rows of 24 bits, so
  three pixels give four rows that straddle the pixels. On black against black, pure
  red, black the code counts 3 matched rows of 4 and answers true, where the metric of
  the claim counts 2 matched pixels of 3 and answers false.
\<close>

theorem is_similar_arr_row_regrouping:
  "is_similar_arr [0, 0, 0] [0, 0xFF0000, 0] = Inr True \<and>
   \<not> spec_is_similar THRESHOLD_ZERO_BITS SIMILARITY_RATIO [0, 0, 0] [0, 0xFF0000, 0] \<and>
   zeros_of [0, 0xFF0000, 0] = Inr [24, 24, 16, 24] \<and>
   map spec_zeros [0, 0xFF0000, 0] = [24, 16, 24]"
  by code_simp

text \<open>
  Claim C2. The claim promises a boolean for every two frames of the same length. On two
  frames of four pixels (a frame of 2 by 2) the lengths agree and every entry is below
  \<open>2^24\<close>, yet the code raises \<^verbatim>\<open>ValueError\<close>: the 128 bits of the XOR array cannot be cut
  into rows of 24. This is the regrouping of claim C1; on two frames of three pixels the
  same call returns a boolean.
\<close>

theorem is_similar_arr_four_pixels_raises:
  "length [0, 0, 0, 0 :: 32 word] = length [0, 0, 0, 0 :: 32 word] \<and>
   is_similar_arr [0, 0, 0, 0] [0, 0, 0, 0] = Inl ValueError \<and>
   is_similar_arr [0, 0, 0] [0, 0, 0] = Inr True"
  by code_simp

text \<open>
  Claim C7. The claim promises \<^verbatim>\<open>True\<close> for every frame compared with itself at a threshold
  \<open>t \<le> 24\<close> and a ratio \<open>r \<le> 1\<close>. On a frame of one pixel, at threshold 24 and ratio 1, the
  metric of the claim answers true (the XOR is zero, so the pixel has 24 zero bits), and
  the code raises \<^verbatim>\<open>ValueError\<close>: the 32 bits of the XOR array cannot be cut into rows of
  24. This is the regrouping of claim C1; on the same colour repeated over three pixels
  the call returns true.
\<close>

theorem self_similarity_one_pixel_raises:
  "is_similar_with 24 1 [5] [5] = Inl ValueError \<and>
   spec_is_similar 24 1 [5] [5] \<and>
   is_similar_with 24 1 [5, 5, 5] [5, 5, 5] = Inr True"
  by code_simp

text \<open>
  Claim C8. For a fixed pair of frames the matched count the metric computes does not grow
  when the threshold grows, and a pair that is similar at a ratio is similar at every
  smaller ratio.
\<close>

theorem metric_antitone:
  "(t1 \<le> t2 \<and> matched_count t2 a b = Inr (m2, n) \<longrightarrow>
      (\<exists>m1. matched_count t1 a b = Inr (m1, n) \<and> m2 \<le> m1)) \<and>
   (r1 \<le> r2 \<and> is_similar_with t r2 a b = Inr True \<longrightarrow> is_similar_with t r1 a b = Inr True)"
  using matched_count_antitone is_similar_with_ratio_antitone by blast

text \<open>
  Thresholds 16 and 17 and ratios 1/2 and 3/4 on a pair of three-pixel frames: the
  matched count falls from 4 to 3 and similarity at 3/4 carries over to 1/2.
\<close>

theorem metric_antitone_witness:
  "matched_count 16 [0, 0, 0] [0, 0xFF0000, 0] = Inr (4, 4) \<and>
   matched_count 17 [0, 0, 0] [0, 0xFF0000, 0] = Inr (3, 4) \<and>
   is_similar_with 17 (3 / 4) [0, 0, 0] [0, 0xFF0000, 0] = Inr True \<and>
   is_similar_with 17 (1 / 2) [0, 0, 0] [0, 0xFF0000, 0] = Inr True"
proof -
  have a: "matched_count 17 [0, 0, 0] [0, 0xFF0000, 0] = Inr (3, 4)" by code_simp
  have b: "is_similar_with 17 (3 / 4) [0, 0, 0] [0, 0xFF0000, 0] = Inr True" by code_simp
  have c: "matched_count 16 [0, 0, 0] [0, 0xFF0000, 0] = Inr (4, 4)" by code_simp
  from metric_antitone [of 16 17 "[0, 0, 0]" "[0, 0xFF0000, 0]" 3 4 "1 / 2" "3 / 4" 17] a b c
  show ?thesis by simp
qed

section \<open>Properties of the offset ladder\<close>

lemma sorted_wrt_gt_distinct: "sorted_wrt (>) (xs :: int list) \<Longrightarrow> distinct xs"
  by (induction xs) auto

text \<open>
  Claim C5. When \<open>\<lfloor>fps\<rfloor> \<ge> 1\<close> the ladder is built without an exception, its entries are
  positive and strictly decreasing (hence distinct), the first is \<open>\<lfloor>fps\<rfloor>\<close>, the last is 1, and
  every entry before the last is above 1, so the trailing 1 occurs once.
\<close>

theorem build_offsets_shape:
  assumes "1 \<le> \<lfloor>fps\<rfloor>"
  shows "\<exists>offs. build_offsets fps = Inr offs \<and> offs \<noteq> [] \<and> (\<forall>x\<in>set offs. 1 \<le> x) \<and>
           sorted_wrt (>) offs \<and> distinct offs \<and> hd offs = \<lfloor>fps\<rfloor> \<and> last offs = 1 \<and>
           (\<forall>x\<in>set (butlast offs). 1 < x)"
proof -
  let ?l = "ladder_loop \<lfloor>fps\<rfloor> []"
  have i: "int_of_float fps = \<lfloor>fps\<rfloor>" using assms by (rule int_of_float_floor)
  have b: "build_offsets fps = Inr ?l"
    using build_offsets_ladder [of fps] assms by (simp only: i)
  from ladder_props [OF assms] have p:
    "hd ?l = \<lfloor>fps\<rfloor>" "?l \<noteq> []" "last ?l = 1" "sorted_wrt (>) ?l" "\<forall>x\<in>set ?l. 1 \<le> x"
    by blast+
  from sorted_wrt_butlast_gt [OF p(4) p(2)] p(3) have t: "\<forall>x\<in>set (butlast ?l). 1 < x" by simp
  from sorted_wrt_gt_distinct [OF p(4)] have d: "distinct ?l" .
  from b p t d show ?thesis by blast
qed

text \<open>
  At 30 frames per second the ladder is 30, 15, 7, 3, 1.
\<close>

theorem build_offsets_shape_witness:
  "1 \<le> \<lfloor>30 :: real\<rfloor> \<and> build_offsets 30 = Inr [30, 15, 7, 3, 1]"
proof -
  have h: "1 \<le> \<lfloor>30 :: real\<rfloor>" by simp
  have e: "build_offsets 30 = Inr [30, 15, 7, 3, 1]" by code_simp
  from build_offsets_shape [OF h] h e show ?thesis by blast
qed

section \<open>Auxiliary facts about the scanner\<close>

subsection \<open>The candidate loop\<close>

lemma probe_match:
  "k < length cs \<Longrightarrow> \<forall>j<k. compare_frames fs b (cs ! j) = Inr False \<Longrightarrow>
   compare_frames fs b (cs ! k) = Inr True \<Longrightarrow>
   probe fs b cs = (map (Comparing b) (take (Suc k) cs), Inr (Some (cs ! k)))"
proof (induction cs arbitrary: k)
  case Nil
  then show ?case by simp
next
  case (Cons c cs)
  show ?case
  proof (cases k)
    case 0
    with Cons.prems(3) show ?thesis by simp
  next
    case (Suc m)
    from Cons.prems(2) Suc have c: "compare_frames fs b c = Inr False" by auto
    have m1: "m < length cs" using Cons.prems(1) Suc by simp
    have m2: "\<forall>j<m. compare_frames fs b (cs ! j) = Inr False"
      using Cons.prems(2) Suc by auto
    have m3: "compare_frames fs b (cs ! m) = Inr True" using Cons.prems(3) Suc by simp
    from Cons.IH [OF m1 m2 m3] c Suc show ?thesis by simp
  qed
qed

lemma probe_exhausted:
  "\<forall>c\<in>set cs. compare_frames fs b c = Inr False \<Longrightarrow>
   probe fs b cs = (map (Comparing b) cs, Inr None)"
  by (induction cs) simp_all

lemma probe_events:
  "e \<in> set (fst (probe fs b cs)) \<Longrightarrow> \<exists>c\<in>set cs. e = Comparing b c"
proof (induction cs)
  case Nil
  then show ?case by simp
next
  case (Cons c cs)
  then show ?case
    by (cases "compare_frames fs b c"; cases "probe fs b cs")
       (auto split: bool.splits)
qed

lemma probe_Some:
  "snd (probe fs b cs) = Inr (Some c) \<Longrightarrow> c \<in> set cs"
proof (induction cs)
  case Nil
  then show ?case by simp
next
  case (Cons x cs)
  then show ?case
    by (cases "compare_frames fs b x"; cases "probe fs b cs")
       (auto split: bool.splits)
qed

lemma probe_Inl:
  "snd (probe fs b cs) = Inl e \<Longrightarrow> \<exists>c\<in>set cs. compare_frames fs b c = Inl e"
proof (induction cs)
  case Nil
  then show ?case by simp
next
  case (Cons x cs)
  then show ?case
    by (cases "compare_frames fs b x"; cases "probe fs b cs")
       (auto split: bool.splits)
qed

lemma candidates_of_bounds:
  assumes "\<forall>off\<in>set offs. 1 \<le> off" "c \<in> set (candidates_of fs offs b)"
  shows "b < c \<and> c < int (length fs)"
  using assms by (auto simp: candidates_of_def)

lemma candidates_of_map_filter:
  "candidates_of fs offs b = map (\<lambda>off. b + off) (filter (\<lambda>off. b + off < int (length fs)) offs)"
  by (induction offs) (simp_all add: candidates_of_def)

lemma candidates_of_decreasing:
  "sorted_wrt (>) offs \<Longrightarrow> sorted_wrt (>) (candidates_of fs offs b)"
  by (simp add: candidates_of_map_filter sorted_wrt_map sorted_wrt_filter)


lemma scan_iteration_cases:
  obtains
    (raised) evs e where
      "probe fs (base st) (candidates_of fs offs (base st)) = (evs, Inl e)"
      "scan_iteration fs offs st = (BaseFrame (base st) # evs, Inl e)"
  | (matched) evs c where
      "probe fs (base st) (candidates_of fs offs (base st)) = (evs, Inr (Some c))"
      "scan_iteration fs offs st =
         (BaseFrame (base st) # evs,
          Inr \<lparr>base = c + 1, redundant = redundant st \<union> {base st + 1 .. c}\<rparr>)"
  | (exhausted) evs where
      "probe fs (base st) (candidates_of fs offs (base st)) = (evs, Inr None)"
      "scan_iteration fs offs st =
         (BaseFrame (base st) # evs,
          Inr \<lparr>base = min (base st + 10) (int (length fs) - 1), redundant = redundant st\<rparr>)"
proof (cases "probe fs (base st) (candidates_of fs offs (base st))")
  case (Pair evs r)
  show ?thesis
  proof (cases r)
    case (Inl e)
    with Pair show ?thesis by (intro raised [of evs e]) (simp_all add: scan_iteration_def)
  next
    case (Inr m)
    show ?thesis
    proof (cases m)
      case None
      with Pair Inr show ?thesis by (intro exhausted [of evs]) (simp_all add: scan_iteration_def)
    next
      case (Some c)
      with Pair Inr show ?thesis by (intro matched [of evs c]) (simp_all add: scan_iteration_def)
    qed
  qed
qed

lemma scan_iteration_events:
  assumes pos: "\<forall>off\<in>set offs. 1 \<le> off"
    and it: "scan_iteration fs offs st = (evs, r)"
  shows "\<exists>cmps. evs = BaseFrame (base st) # cmps \<and>
           (\<forall>e\<in>set cmps. \<exists>c. e = Comparing (base st) c \<and> base st < c \<and> c < int (length fs))"
proof -
  let ?cs = "candidates_of fs offs (base st)"
  have ev: "\<exists>c. e = Comparing (base st) c \<and> base st < c \<and> c < int (length fs)"
    if "e \<in> set (fst (probe fs (base st) ?cs))" for e
    using probe_events [OF that] candidates_of_bounds [OF pos] by blast
  show ?thesis
  proof (cases rule: scan_iteration_cases [of fs st offs])
    case (raised cmps e)
    with it ev show ?thesis by auto
  next
    case (matched cmps c)
    with it ev show ?thesis by auto
  next
    case (exhausted cmps)
    with it ev show ?thesis by auto
  qed
qed

lemma scan_iteration_step:
  assumes pos: "\<forall>off\<in>set offs. 1 \<le> off"
    and lt: "base st < int (length fs) - 1"
    and it: "scan_iteration fs offs st = (evs, Inr st')"
  shows "base st < base st' \<and> base st' \<le> int (length fs) \<and>
         redundant st \<subseteq> redundant st' \<and>
         (\<forall>r\<in>redundant st'. r \<in> redundant st \<or> (base st < r \<and> r < base st' \<and> r < int (length fs))) \<and>
         (finite (redundant st) \<longrightarrow> finite (redundant st'))"
proof (cases rule: scan_iteration_cases [of fs st offs])
  case (raised cmps e)
  with it show ?thesis by simp
next
  case (matched cmps c)
  from matched(1) have "c \<in> set (candidates_of fs offs (base st))"
    using probe_Some [of fs "base st" "candidates_of fs offs (base st)" c] by simp
  from candidates_of_bounds [OF pos this] have c: "base st < c" "c < int (length fs)" by simp_all
  from matched(2) it have st': "st' = \<lparr>base = c + 1, redundant = redundant st \<union> {base st + 1 .. c}\<rparr>"
    by simp
  show ?thesis unfolding st' using c by auto
next
  case (exhausted cmps)
  with it have st': "st' = \<lparr>base = min (base st + 10) (int (length fs) - 1), redundant = redundant st\<rparr>"
    by simp
  show ?thesis unfolding st' using lt by auto
qed

lemma is_similar_arr_no_IndexError: "is_similar_arr a b \<noteq> Inl IndexError"
  by (auto simp: is_similar_arr_def is_similar_with_def matched_count_def bitwise_xor_def
      zeros_of_def reshape_rows_def split: sum.splits prod.splits if_splits)

lemma compare_frames_no_IndexError:
  assumes "0 \<le> b" "b < int (length fs)" "0 \<le> c" "c < int (length fs)"
  shows "compare_frames fs b c \<noteq> Inl IndexError"
  using assms is_similar_arr_no_IndexError by (simp add: compare_frames_def getitem_def)

lemma scan_iteration_no_IndexError:
  assumes pos: "\<forall>off\<in>set offs. 1 \<le> off"
    and nn: "0 \<le> base st"
    and it: "scan_iteration fs offs st = (evs, Inl e)"
  shows "e \<noteq> IndexError"
proof (cases rule: scan_iteration_cases [of fs st offs])
  case (raised cmps e')
  with it have e: "e' = e" by simp
  from raised(1) obtain c where c: "c \<in> set (candidates_of fs offs (base st))"
    "compare_frames fs (base st) c = Inl e'"
    using probe_Inl [of fs "base st" "candidates_of fs offs (base st)" e'] by auto
  from candidates_of_bounds [OF pos c(1)] have b: "base st < c" "c < int (length fs)" by simp_all
  from compare_frames_no_IndexError [of "base st" fs c] nn b c(2) e show ?thesis by auto
next
  case (matched cmps c)
  with it show ?thesis by simp
next
  case (exhausted cmps)
  with it show ?thesis by simp
qed

subsection \<open>The outer loop\<close>

lemma scan_loop_done:
  "\<not> base st < int (length fs) - 1 \<Longrightarrow> scan_loop fuel fs offs st = Some ([], Inr (redundant st))"
  by (subst scan_loop.simps) simp

lemma scan_loop_0:
  "base st < int (length fs) - 1 \<Longrightarrow> scan_loop 0 fs offs st = None"
  by (subst scan_loop.simps) simp

lemma scan_loop_Suc_Inl:
  "base st < int (length fs) - 1 \<Longrightarrow> scan_iteration fs offs st = (evs, Inl e) \<Longrightarrow>
   scan_loop (Suc k) fs offs st = Some (evs, Inl e)"
  by (subst scan_loop.simps) simp

lemma scan_loop_Suc_Inr:
  "base st < int (length fs) - 1 \<Longrightarrow> scan_iteration fs offs st = (evs, Inr st') \<Longrightarrow>
   scan_loop (Suc k) fs offs st =
     (case scan_loop k fs offs st' of None \<Rightarrow> None | Some (evs', r) \<Rightarrow> Some (evs @ evs', r))"
  by (subst scan_loop.simps) simp

text \<open>How a run of the loop that returns decomposes.\<close>

lemma scan_loop_SomeE:
  assumes "scan_loop fuel fs offs st = Some (evs, res)"
  obtains
    (stop) "\<not> base st < int (length fs) - 1" "evs = []" "res = Inr (redundant st)"
  | (raise) k e where "fuel = Suc k" "base st < int (length fs) - 1"
      "scan_iteration fs offs st = (evs, Inl e)" "res = Inl e"
  | (continue) k evs1 st' evs2 where "fuel = Suc k" "base st < int (length fs) - 1"
      "scan_iteration fs offs st = (evs1, Inr st')"
      "scan_loop k fs offs st' = Some (evs2, res)" "evs = evs1 @ evs2"
proof (cases "base st < int (length fs) - 1")
  case False
  with assms show ?thesis by (intro stop) (simp_all add: scan_loop_done)
next
  case True
  show ?thesis
  proof (cases fuel)
    case 0
    with True assms show ?thesis by (simp add: scan_loop_0)
  next
    case (Suc k)
    obtain evs1 r where it: "scan_iteration fs offs st = (evs1, r)"
      by (cases "scan_iteration fs offs st")
    show ?thesis
    proof (cases r)
      case (Inl e)
      with it True Suc assms show ?thesis
        by (intro raise [of k e]) (simp_all add: scan_loop_Suc_Inl)
    next
      case (Inr st')
      with it True have eq: "scan_loop (Suc k) fs offs st =
        (case scan_loop k fs offs st' of None \<Rightarrow> None | Some (evs', r) \<Rightarrow> Some (evs1 @ evs', r))"
        by (simp add: scan_loop_Suc_Inr)
      show ?thesis
      proof (cases "scan_loop k fs offs st'")
        case None
        with eq assms Suc show ?thesis by simp
      next
        case (Some p)
        obtain evs2 r2 where p: "p = (evs2, r2)" by (cases p)
        with Some eq assms Suc have "evs = evs1 @ evs2" "res = r2" by simp_all
        with Some p it Inr True Suc show ?thesis
          by (intro continue [of k evs1 st' evs2]) simp_all
      qed
    qed
  qed
qed

lemma scan_loop_terminates:
  assumes pos: "\<forall>off\<in>set offs. 1 \<le> off"
  shows "int (length fs) - 1 - base st \<le> int fuel \<Longrightarrow> scan_loop fuel fs offs st \<noteq> None"
proof (induction fuel arbitrary: st)
  case 0
  then have "\<not> base st < int (length fs) - 1" by simp
  then show ?case by (simp add: scan_loop_done)
next
  case (Suc k)
  show ?case
  proof (cases "base st < int (length fs) - 1")
    case False
    then show ?thesis by (simp add: scan_loop_done)
  next
    case True
    obtain evs r where it: "scan_iteration fs offs st = (evs, r)"
      by (cases "scan_iteration fs offs st")
    show ?thesis
    proof (cases r)
      case (Inl e)
      with it True show ?thesis by (simp add: scan_loop_Suc_Inl)
    next
      case (Inr st')
      from scan_iteration_step [OF pos True it [unfolded Inr]] have "base st < base st'" by simp
      with Suc.prems have "int (length fs) - 1 - base st' \<le> int k" by simp
      from Suc.IH [OF this] obtain p where "scan_loop k fs offs st' = Some p" by auto
      with it Inr True show ?thesis by (simp add: scan_loop_Suc_Inr split: prod.splits)
    qed
  qed
qed

lemma scan_loop_more_fuel:
  "scan_loop fuel fs offs st = Some x \<Longrightarrow> scan_loop (fuel + extra) fs offs st = Some x"
proof (induction fuel arbitrary: st x)
  case 0
  then have "\<not> base st < int (length fs) - 1" by (auto simp: scan_loop_0)
  with 0 show ?case by (simp add: scan_loop_done)
next
  case (Suc k)
  obtain evs res where x: "x = (evs, res)" by (cases x)
  from Suc.prems [unfolded x] show ?case
  proof (cases rule: scan_loop_SomeE)
    case stop
    then show ?thesis by (simp add: scan_loop_done x)
  next
    case (raise k' e)
    then show ?thesis by (simp add: scan_loop_Suc_Inl x)
  next
    case (continue k' evs1 st' evs2)
    then have "scan_loop (k + extra) fs offs st' = Some (evs2, res)"
      using Suc.IH [of st' "(evs2, res)"] by simp
    with continue show ?thesis by (simp add: scan_loop_Suc_Inr x)
  qed
qed

lemma scan_iteration_event:
  assumes pos: "\<forall>off\<in>set offs. 1 \<le> off"
    and it: "scan_iteration fs offs st = (evs, r)"
    and e: "e \<in> set evs"
  shows "e = BaseFrame (base st) \<or>
         (\<exists>c. e = Comparing (base st) c \<and> base st < c \<and> c < int (length fs))"
proof -
  from scan_iteration_events [OF pos it] obtain cmps where
    c: "evs = BaseFrame (base st) # cmps"
       "\<forall>e\<in>set cmps. \<exists>c. e = Comparing (base st) c \<and> base st < c \<and> c < int (length fs)"
    by blast
  from e c(1) have "e = BaseFrame (base st) \<or> e \<in> set cmps" by simp
  with c(2) show ?thesis by blast
qed

lemma scan_loop_events:
  assumes pos: "\<forall>off\<in>set offs. 1 \<le> off"
  shows "scan_loop fuel fs offs st = Some (evs, res) \<Longrightarrow> e \<in> set evs \<Longrightarrow>
         (\<exists>b. e = BaseFrame b \<and> base st \<le> b \<and> b < int (length fs) - 1) \<or>
         (\<exists>b c. e = Comparing b c \<and> base st \<le> b \<and> b < c \<and> c < int (length fs))"
proof (induction fuel arbitrary: st evs)
  case 0
  from 0(1) show ?case
    by (cases rule: scan_loop_SomeE) (use 0(2) in simp_all)
next
  case (Suc k)
  from Suc.prems(1) show ?case
  proof (cases rule: scan_loop_SomeE)
    case stop
    with Suc.prems(2) show ?thesis by simp
  next
    case (raise k' err)
    from scan_iteration_event [OF pos raise(3) Suc.prems(2)] raise(2)
    show ?thesis by auto
  next
    case (continue k' evs1 st' evs2)
    from scan_iteration_step [OF pos continue(2,3)] have up: "base st < base st'" by simp
    from Suc.prems(2) continue(5) consider "e \<in> set evs1" | "e \<in> set evs2" by auto
    then show ?thesis
    proof cases
      case 1
      from scan_iteration_event [OF pos continue(3) 1] continue(2) show ?thesis by auto
    next
      case 2
      from continue(1,4) have "scan_loop k fs offs st' = Some (evs2, res)" by simp
      from Suc.IH [OF this 2] up show ?thesis by force
    qed
  qed
qed

lemma scan_iteration_one_base:
  assumes pos: "\<forall>off\<in>set offs. 1 \<le> off"
    and it: "scan_iteration fs offs st = (evs, r)"
  shows "length (filter is_base_event evs) = 1"
proof -
  from scan_iteration_events [OF pos it] obtain cmps where
    c: "evs = BaseFrame (base st) # cmps" "\<forall>e\<in>set cmps. \<exists>c. e = Comparing (base st) c"
    by blast
  from c(2) have "filter is_base_event cmps = []" by (auto simp: filter_empty_conv)
  with c(1) show ?thesis by simp
qed

lemma scan_loop_iterations:
  assumes pos: "\<forall>off\<in>set offs. 1 \<le> off"
  shows "scan_loop fuel fs offs st = Some (evs, res) \<Longrightarrow>
         length (filter is_base_event evs) \<le> fuel"
proof (induction fuel arbitrary: st evs)
  case 0
  then show ?case by (cases rule: scan_loop_SomeE) simp_all
next
  case (Suc k)
  from Suc.prems show ?case
  proof (cases rule: scan_loop_SomeE)
    case stop
    then show ?thesis by simp
  next
    case (raise k' err)
    with scan_iteration_one_base [OF pos raise(3)] show ?thesis by simp
  next
    case (continue k' evs1 st' evs2)
    from continue(1,4) have "scan_loop k fs offs st' = Some (evs2, res)" by simp
    from Suc.IH [OF this] scan_iteration_one_base [OF pos continue(3)] continue(5)
    show ?thesis by simp
  qed
qed

lemma scan_loop_result:
  assumes pos: "\<forall>off\<in>set offs. 1 \<le> off"
  shows "scan_loop fuel fs offs st = Some (evs, Inr rs) \<Longrightarrow>
         redundant st \<subseteq> rs \<and>
         (\<forall>r\<in>rs. r \<in> redundant st \<or> (base st < r \<and> r < int (length fs))) \<and>
         (finite (redundant st) \<longrightarrow> finite rs)"
proof (induction fuel arbitrary: st evs)
  case 0
  then show ?case by (cases rule: scan_loop_SomeE) simp_all
next
  case (Suc k)
  from Suc.prems show ?case
  proof (cases rule: scan_loop_SomeE)
    case stop
    then show ?thesis by simp
  next
    case (raise k' err)
    then show ?thesis by simp
  next
    case (continue k' evs1 st' evs2)
    from continue(1,4) have "scan_loop k fs offs st' = Some (evs2, Inr rs)" by simp
    from Suc.IH [OF this] have ih:
      "redundant st' \<subseteq> rs"
      "\<forall>r\<in>rs. r \<in> redundant st' \<or> (base st' < r \<and> r < int (length fs))"
      "finite (redundant st') \<longrightarrow> finite rs"
      by blast+
    from scan_iteration_step [OF pos continue(2,3)] have step:
      "base st < base st'" "redundant st \<subseteq> redundant st'"
      "\<forall>r\<in>redundant st'. r \<in> redundant st \<or> (base st < r \<and> r < base st' \<and> r < int (length fs))"
      "finite (redundant st) \<longrightarrow> finite (redundant st')"
      by blast+
    have a: "redundant st \<subseteq> rs" using ih(1) step(2) by blast
    have b: "\<forall>r\<in>rs. r \<in> redundant st \<or> (base st < r \<and> r < int (length fs))"
    proof
      fix r assume "r \<in> rs"
      with ih(2) consider "r \<in> redundant st'" | "base st' < r" "r < int (length fs)" by blast
      then show "r \<in> redundant st \<or> (base st < r \<and> r < int (length fs))"
      proof cases
        case 1
        with step(3) show ?thesis by blast
      next
        case 2
        with step(1) show ?thesis by simp
      qed
    qed
    have c: "finite (redundant st) \<longrightarrow> finite rs" using ih(3) step(4) by blast
    from a b c show ?thesis by blast
  qed
qed

lemma scan_loop_bases_kept:
  assumes pos: "\<forall>off\<in>set offs. 1 \<le> off"
  shows "scan_loop fuel fs offs st = Some (evs, Inr rs) \<Longrightarrow>
         \<forall>r\<in>redundant st. r < base st \<Longrightarrow> BaseFrame b \<in> set evs \<Longrightarrow> b \<notin> rs"
proof (induction fuel arbitrary: st evs)
  case 0
  from 0(1) show ?case by (cases rule: scan_loop_SomeE) (use 0(3) in simp_all)
next
  case (Suc k)
  from Suc.prems(1) show ?case
  proof (cases rule: scan_loop_SomeE)
    case stop
    with Suc.prems(3) show ?thesis by simp
  next
    case (raise k' err)
    then show ?thesis by simp
  next
    case (continue k' evs1 st' evs2)
    from continue(1,4) have run: "scan_loop k fs offs st' = Some (evs2, Inr rs)" by simp
    from scan_iteration_step [OF pos continue(2,3)] have step:
      "base st < base st'"
      "\<forall>r\<in>redundant st'. r \<in> redundant st \<or> (base st < r \<and> r < base st' \<and> r < int (length fs))"
      by blast+
    have inv: "\<forall>r\<in>redundant st'. r < base st'"
    proof
      fix r assume "r \<in> redundant st'"
      with step(2) consider "r \<in> redundant st" | "r < base st'" by blast
      then show "r < base st'"
      proof cases
        case 1
        with Suc.prems(2) step(1) show ?thesis by force
      next
        case 2
        then show ?thesis .
      qed
    qed
    from Suc.prems(3) continue(5) consider "BaseFrame b \<in> set evs1" | "BaseFrame b \<in> set evs2"
      by auto
    then show ?thesis
    proof cases
      case 1
      from scan_iteration_event [OF pos continue(3) 1] have b: "b = base st" by auto
      show ?thesis
      proof
        assume "b \<in> rs"
        with scan_loop_result [OF pos run]
        consider "b \<in> redundant st'" | "base st' < b" by blast
        then show False
        proof cases
          case 1
          with step(2) b Suc.prems(2) show False by force
        next
          case 2
          with step(1) b show False by simp
        qed
      qed
    next
      case 2
      from Suc.IH [OF run inv 2] show ?thesis .
    qed
  qed
qed

lemma scan_loop_no_IndexError:
  assumes pos: "\<forall>off\<in>set offs. 1 \<le> off"
  shows "scan_loop fuel fs offs st = Some (evs, res) \<Longrightarrow> 0 \<le> base st \<Longrightarrow>
         res \<noteq> Inl IndexError"
proof (induction fuel arbitrary: st evs)
  case 0
  from 0(1) show ?case by (cases rule: scan_loop_SomeE) simp_all
next
  case (Suc k)
  from Suc.prems(1) show ?case
  proof (cases rule: scan_loop_SomeE)
    case stop
    then show ?thesis by simp
  next
    case (raise k' err)
    with scan_iteration_no_IndexError [OF pos Suc.prems(2) raise(3)] show ?thesis by simp
  next
    case (continue k' evs1 st' evs2)
    from continue(1,4) have run: "scan_loop k fs offs st' = Some (evs2, res)" by simp
    from scan_iteration_step [OF pos continue(2,3)] Suc.prems(2) have "0 \<le> base st'" by simp
    from Suc.IH [OF run this] show ?thesis .
  qed
qed

lemma build_offsets_positive:
  assumes "1 \<le> fps"
  shows "\<exists>offs. build_offsets fps = Inr offs \<and> (\<forall>off\<in>set offs. 1 \<le> off) \<and> sorted_wrt (>) offs"
proof -
  from assms have f: "1 \<le> \<lfloor>fps\<rfloor>" by simp
  then have i: "1 \<le> int_of_float fps" by (simp only: int_of_float_floor)
  from ladder_props [OF i] build_offsets_ladder [OF i] show ?thesis by blast
qed

lemma find_redundant_ranges_SomeE:
  assumes "1 \<le> fps" "find_redundant_ranges fuel fs fps = Some (evs, res)"
  obtains offs r where "build_offsets fps = Inr offs" "\<forall>off\<in>set offs. 1 \<le> off"
    "scan_loop fuel fs offs \<lparr>base = 0, redundant = {}\<rparr> = Some (evs, r)"
    "res = (case r of Inl e \<Rightarrow> Inl e | Inr marked \<Rightarrow> Inr (sorted_list_of_set marked))"
proof -
  from build_offsets_positive [OF assms(1)] obtain offs where
    o: "build_offsets fps = Inr offs" "\<forall>off\<in>set offs. 1 \<le> off" by blast
  show ?thesis
  proof (cases "scan_loop fuel fs offs \<lparr>base = 0, redundant = {}\<rparr>")
    case None
    with assms(2) o(1) show ?thesis by (simp add: find_redundant_ranges_def)
  next
    case (Some p)
    obtain evs' r where p: "p = (evs', r)" by (cases p)
    with Some assms(2) o(1) have "evs' = evs"
      "res = (case r of Inl e \<Rightarrow> Inl e | Inr marked \<Rightarrow> Inr (sorted_list_of_set marked))"
      by (auto simp: find_redundant_ranges_def split: sum.splits)
    with Some p o show ?thesis by (intro that [of offs r]) simp_all
  qed
qed

section \<open>Properties of the redundancy scanner\<close>

text \<open>
  Claim C3. One outer iteration from a state \<open>st\<close>. The candidates are \<open>base + off\<close> for the
  offsets with \<open>base + off < N\<close>, in the order of the ladder (decreasing when the ladder
  is). If candidate number \<open>k\<close> is the first judged similar to the base, the comparisons
  made are exactly those with candidates \<open>0\<close> to \<open>k\<close>, the indices \<open>base + 1\<close> to the
  candidate are added to the redundant set and the base becomes the candidate plus one.
  If every candidate is judged not similar (also when there is none), every candidate is
  compared once, the redundant set is unchanged and the base becomes
  \<open>min (base + 10) (N - 1)\<close>. The statement holds for every state, so for those with
  \<open>base < N - 1\<close> on which the loop runs an iteration.
\<close>

theorem scan_iteration_behaviour:
  "(\<forall>k < length (candidates_of fs offs (base st)).
      (\<forall>j<k. compare_frames fs (base st) (candidates_of fs offs (base st) ! j) = Inr False) \<and>
      compare_frames fs (base st) (candidates_of fs offs (base st) ! k) = Inr True \<longrightarrow>
      scan_iteration fs offs st =
        (BaseFrame (base st) # map (Comparing (base st)) (take (Suc k) (candidates_of fs offs (base st))),
         Inr \<lparr>base = candidates_of fs offs (base st) ! k + 1,
              redundant = redundant st \<union> {base st + 1 .. candidates_of fs offs (base st) ! k}\<rparr>)) \<and>
   ((\<forall>c\<in>set (candidates_of fs offs (base st)). compare_frames fs (base st) c = Inr False) \<longrightarrow>
      scan_iteration fs offs st =
        (BaseFrame (base st) # map (Comparing (base st)) (candidates_of fs offs (base st)),
         Inr \<lparr>base = min (base st + 10) (int (length fs) - 1), redundant = redundant st\<rparr>)) \<and>
   candidates_of fs offs (base st) =
     map (\<lambda>off. base st + off) (filter (\<lambda>off. base st + off < int (length fs)) offs) \<and>
   (sorted_wrt (>) offs \<longrightarrow> sorted_wrt (>) (candidates_of fs offs (base st)))"
proof -
  let ?cs = "candidates_of fs offs (base st)"
  have m: "scan_iteration fs offs st =
        (BaseFrame (base st) # map (Comparing (base st)) (take (Suc k) ?cs),
         Inr \<lparr>base = ?cs ! k + 1, redundant = redundant st \<union> {base st + 1 .. ?cs ! k}\<rparr>)"
    if "k < length ?cs" "\<forall>j<k. compare_frames fs (base st) (?cs ! j) = Inr False"
       "compare_frames fs (base st) (?cs ! k) = Inr True" for k
    using probe_match [OF that] by (simp add: scan_iteration_def)
  have x: "scan_iteration fs offs st =
        (BaseFrame (base st) # map (Comparing (base st)) ?cs,
         Inr \<lparr>base = min (base st + 10) (int (length fs) - 1), redundant = redundant st\<rparr>)"
    if "\<forall>c\<in>set ?cs. compare_frames fs (base st) c = Inr False"
    using probe_exhausted [OF that] by (simp add: scan_iteration_def)
  from m x candidates_of_map_filter [of fs offs "base st"] candidates_of_decreasing [of offs fs "base st"]
  show ?thesis by blast
qed

text \<open>
  Five equal frames with ladder 2, 1: the first candidate, frame 2, matches. Two
  different frames: the only candidate, frame 1, does not match and the base is clamped
  to the last index.
\<close>

theorem scan_iteration_behaviour_witness:
  "scan_iteration
     [[0x0A141E, 0x0A141E, 0x0A141E] :: 32 word list, [0x0A141E, 0x0A141E, 0x0A141E], [0x0A141E, 0x0A141E, 0x0A141E], [0x0A141E, 0x0A141E, 0x0A141E], [0x0A141E, 0x0A141E, 0x0A141E]]
     [2, 1] \<lparr>base = 0, redundant = {}\<rparr> =
     ([BaseFrame 0, Comparing 0 2], Inr \<lparr>base = 3, redundant = {1 .. 2}\<rparr>) \<and>
   scan_iteration
     [[0x0A141E, 0x0A141E, 0x0A141E] :: 32 word list, [0xFFFFFF, 0xFFFFFF, 0xFFFFFF]]
     [2, 1] \<lparr>base = 0, redundant = {}\<rparr> =
     ([BaseFrame 0, Comparing 0 1], Inr \<lparr>base = 1, redundant = {}\<rparr>)"
proof -
  let ?fs = "[[0x0A141E, 0x0A141E, 0x0A141E] :: 32 word list, [0x0A141E, 0x0A141E, 0x0A141E], [0x0A141E, 0x0A141E, 0x0A141E], [0x0A141E, 0x0A141E, 0x0A141E], [0x0A141E, 0x0A141E, 0x0A141E]]"
  let ?gs = "[[0x0A141E, 0x0A141E, 0x0A141E] :: 32 word list, [0xFFFFFF, 0xFFFFFF, 0xFFFFFF]]"
  let ?st = "\<lparr>base = 0, redundant = {}\<rparr>"
  have c1: "candidates_of ?fs [2, 1] (base ?st) = [2, 1]" by code_simp
  have k1: "0 < length (candidates_of ?fs [2, 1] (base ?st))" by (simp only: c1) simp
  have h1: "(\<forall>j<0. compare_frames ?fs (base ?st) (candidates_of ?fs [2, 1] (base ?st) ! j) = Inr False) \<and>
            compare_frames ?fs (base ?st) (candidates_of ?fs [2, 1] (base ?st) ! 0) = Inr True"
  proof
    show "\<forall>j<0. compare_frames ?fs (base ?st) (candidates_of ?fs [2, 1] (base ?st) ! j) = Inr False"
      by simp
    have "compare_frames ?fs 0 2 = Inr True" by code_simp
    then show "compare_frames ?fs (base ?st) (candidates_of ?fs [2, 1] (base ?st) ! 0) = Inr True"
      by (simp only: c1) simp
  qed
  note a = scan_iteration_behaviour [of ?fs "[2, 1]" ?st, THEN conjunct1, rule_format, OF k1 h1]
  have r1: "scan_iteration ?fs [2, 1] ?st =
     ([BaseFrame 0, Comparing 0 2], Inr \<lparr>base = 3, redundant = {1 .. 2}\<rparr>)"
    using a by (simp only: c1) simp
  have c2: "candidates_of ?gs [2, 1] (base ?st) = [1]" by code_simp
  have n2: "compare_frames ?gs 0 1 = Inr False" by code_simp
  have h2: "\<forall>c\<in>set (candidates_of ?gs [2, 1] (base ?st)). compare_frames ?gs (base ?st) c = Inr False"
    using n2 by (simp only: c2) simp
  note b = scan_iteration_behaviour [of ?gs "[2, 1]" ?st, THEN conjunct2, THEN conjunct1, THEN mp, OF h2]
  have r2: "scan_iteration ?gs [2, 1] ?st =
     ([BaseFrame 0, Comparing 0 1], Inr \<lparr>base = 1, redundant = {}\<rparr>)"
    using b by (simp only: c2) simp
  from r1 r2 show ?thesis by (rule conjI)
qed

text \<open>
  Claim C4. When \<open>fps \<ge> 1\<close> and the scanner returns a sequence, the sequence is strictly
  ascending and free of duplicates, every index in it lies in \<open>[1, N)\<close>, it is empty when
  \<open>N \<le> 1\<close>, and no index printed as a base frame during the scan occurs in it.
\<close>

theorem find_redundant_ranges_result:
  assumes "1 \<le> fps" and "find_redundant_ranges fuel fs fps = Some (evs, Inr xs)"
  shows "sorted_wrt (<) xs \<and> distinct xs \<and>
         (\<forall>i\<in>set xs. 1 \<le> i \<and> i < int (length fs)) \<and>
         (length fs \<le> 1 \<longrightarrow> xs = []) \<and>
         (\<forall>b. BaseFrame b \<in> set evs \<longrightarrow> b \<notin> set xs)"
  using assms
proof (cases rule: find_redundant_ranges_SomeE)
  case (1 offs r)
  from 1(4) obtain rs where r: "r = Inr rs" and xs: "xs = sorted_list_of_set rs"
    by (cases r) simp_all
  let ?init = "\<lparr>base = 0, redundant = {}\<rparr>"
  from 1(3) r have run: "scan_loop fuel fs offs ?init = Some (evs, Inr rs)" by simp
  from scan_loop_result [OF 1(2) run] have
    rng: "\<forall>i\<in>rs. 0 < i \<and> i < int (length fs)" and fin: "finite rs" by auto
  from fin have set: "set xs = rs" by (simp add: xs)
  have s: "sorted_wrt (<) xs" by (simp add: xs)
  then have d: "distinct xs" by (simp add: strict_sorted_iff)
  have b: "\<forall>i\<in>set xs. 1 \<le> i \<and> i < int (length fs)" using rng set by auto
  have e: "length fs \<le> 1 \<longrightarrow> xs = []"
  proof
    assume small: "length fs \<le> 1"
    have "i \<notin> set xs" for i
    proof
      assume "i \<in> set xs"
      with b have "1 \<le> i" "i < int (length fs)" by simp_all
      with small show False by simp
    qed
    then show "xs = []" by (cases xs) auto
  qed
  have k: "\<forall>b. BaseFrame b \<in> set evs \<longrightarrow> b \<notin> set xs"
    using scan_loop_bases_kept [OF 1(2) run] set by simp
  from s d b e k show ?thesis by blast
qed

text \<open>
  Five equal frames at 2 frames per second: the result is 1, 2, 4 and the bases were 0
  and 3.
\<close>

theorem find_redundant_ranges_result_witness:
  "(1 :: real) \<le> 2 \<and>
   find_redundant_ranges 5
     [[0x0A141E, 0x0A141E, 0x0A141E] :: 32 word list, [0x0A141E, 0x0A141E, 0x0A141E], [0x0A141E, 0x0A141E, 0x0A141E], [0x0A141E, 0x0A141E, 0x0A141E], [0x0A141E, 0x0A141E, 0x0A141E]] 2 =
     Some ([BaseFrame 0, Comparing 0 2, BaseFrame 3, Comparing 3 4], Inr [1, 2, 4]) \<and>
   sorted_wrt (<) [1, 2, 4 :: int] \<and> distinct [1, 2, 4 :: int] \<and>
   (0 :: int) \<notin> set [1, 2, 4] \<and> (3 :: int) \<notin> set [1, 2, 4]"
proof -
  let ?fs = "[[0x0A141E, 0x0A141E, 0x0A141E] :: 32 word list, [0x0A141E, 0x0A141E, 0x0A141E], [0x0A141E, 0x0A141E, 0x0A141E], [0x0A141E, 0x0A141E, 0x0A141E], [0x0A141E, 0x0A141E, 0x0A141E]]"
  have h: "(1 :: real) \<le> 2" by simp
  have e: "find_redundant_ranges 5 ?fs 2 = Some ([BaseFrame 0, Comparing 0 2, BaseFrame 3, Comparing 3 4], Inr [1, 2, 4])"
    by code_simp
  note t = find_redundant_ranges_result [OF h e]
  from t have s: "sorted_wrt (<) [1, 2, 4 :: int]" by (rule conjunct1)
  from t have d: "distinct [1, 2, 4 :: int]" by (rule conjunct2 [THEN conjunct1])
  from t have k: "\<forall>b. BaseFrame b \<in> set [BaseFrame 0, Comparing 0 2, BaseFrame 3, Comparing 3 4] \<longrightarrow> b \<notin> set [1, 2, 4 :: int]"
    by (rule conjunct2 [THEN conjunct2, THEN conjunct2, THEN conjunct2])
  from k have b0: "(0 :: int) \<notin> set [1, 2, 4]" by (rule allE [of _ 0]) simp
  from k have b3: "(3 :: int) \<notin> set [1, 2, 4]" by (rule allE [of _ 3]) simp
  from h e s d b0 b3 show ?thesis by (intro conjI)
qed

text \<open>
  Claim C6. When \<open>fps \<ge> 1\<close> the scanner ends (with a result or an exception of the metric)
  within \<open>N\<close> outer iterations: \<open>N\<close> units of fuel are enough, the trace holds at most \<open>N\<close>
  base frames, more fuel changes nothing, and every iteration that runs from a base below
  \<open>N - 1\<close> and does not raise moves the base up by at least one.
\<close>

theorem find_redundant_ranges_terminates:
  assumes "1 \<le> fps"
  shows "(\<exists>evs res. find_redundant_ranges (length fs) fs fps = Some (evs, res) \<and>
            length (filter is_base_event evs) \<le> length fs \<and>
            (\<forall>extra. find_redundant_ranges (length fs + extra) fs fps = Some (evs, res))) \<and>
         (\<forall>offs st evs st'.
            build_offsets fps = Inr offs \<and> base st < int (length fs) - 1 \<and>
            scan_iteration fs offs st = (evs, Inr st') \<longrightarrow> base st + 1 \<le> base st')"
proof -
  from build_offsets_positive [OF assms] obtain offs where
    o: "build_offsets fps = Inr offs" and pos: "\<forall>off\<in>set offs. 1 \<le> off" by blast
  let ?init = "\<lparr>base = 0, redundant = {}\<rparr>"
  have "int (length fs) - 1 - base ?init \<le> int (length fs)" by simp
  from scan_loop_terminates [OF pos this] obtain evs r where
    run: "scan_loop (length fs) fs offs ?init = Some (evs, r)" by auto
  let ?res = "case r of Inl e \<Rightarrow> Inl e | Inr marked \<Rightarrow> Inr (sorted_list_of_set marked)"
  have more: "scan_loop (length fs + extra) fs offs ?init = Some (evs, r)" for extra
    using run by (rule scan_loop_more_fuel)
  have f: "find_redundant_ranges (length fs + extra) fs fps = Some (evs, ?res)" for extra
    using o more [of extra] by (simp add: find_redundant_ranges_def split: sum.splits)
  from f [of 0] have f0: "find_redundant_ranges (length fs) fs fps = Some (evs, ?res)" by simp
  have n: "length (filter is_base_event evs) \<le> length fs"
    using run by (rule scan_loop_iterations [OF pos])
  have step: "base st + 1 \<le> base st'"
    if "build_offsets fps = Inr offs'" "base st < int (length fs) - 1"
       "scan_iteration fs offs' st = (evs', Inr st')" for offs' st evs' st'
  proof -
    from that(1) o have "offs' = offs" by simp
    with scan_iteration_step [OF pos that(2), of evs' st'] that(3) show ?thesis by simp
  qed
  from f0 n f step show ?thesis by blast
qed

text \<open>
  Five equal frames at 2 frames per second end within five iterations.
\<close>

theorem find_redundant_ranges_terminates_witness:
  "(1 :: real) \<le> 2 \<and>
   (\<exists>evs res. find_redundant_ranges 5
      [[0x0A141E, 0x0A141E, 0x0A141E] :: 32 word list, [0x0A141E, 0x0A141E, 0x0A141E], [0x0A141E, 0x0A141E, 0x0A141E], [0x0A141E, 0x0A141E, 0x0A141E], [0x0A141E, 0x0A141E, 0x0A141E]] 2 = Some (evs, res) \<and>
      length (filter is_base_event evs) \<le> 5)"
proof -
  let ?fs = "[[0x0A141E, 0x0A141E, 0x0A141E] :: 32 word list, [0x0A141E, 0x0A141E, 0x0A141E], [0x0A141E, 0x0A141E, 0x0A141E], [0x0A141E, 0x0A141E, 0x0A141E], [0x0A141E, 0x0A141E, 0x0A141E]]"
  have h: "(1 :: real) \<le> 2" by simp
  have l: "length ?fs = 5" by simp
  from find_redundant_ranges_terminates [OF h, of ?fs, THEN conjunct1]
  have "\<exists>evs res. find_redundant_ranges (length ?fs) ?fs 2 = Some (evs, res) \<and>
          length (filter is_base_event evs) \<le> length ?fs"
    by blast
  then have "\<exists>evs res. find_redundant_ranges 5 ?fs 2 = Some (evs, res) \<and>
          length (filter is_base_event evs) \<le> 5"
    by (simp only: l)
  with h show ?thesis by (rule conjI)
qed

text \<open>
  Claim C10. When \<open>fps \<ge> 1\<close>, every comparison the scanner starts has
  \<open>0 \<le> base < candidate < N\<close>, so both reads of the frame list are in range and read the
  frame at that very index, and the scan never raises \<^verbatim>\<open>IndexError\<close>.
\<close>

theorem frame_reads_in_bounds:
  assumes "1 \<le> fps" and "find_redundant_ranges fuel fs fps = Some (evs, res)"
  shows "(\<forall>b c. Comparing b c \<in> set evs \<longrightarrow>
            0 \<le> b \<and> b < c \<and> c < int (length fs) \<and>
            getitem fs b = Inr (fs ! nat b) \<and> getitem fs c = Inr (fs ! nat c)) \<and>
         res \<noteq> Inl IndexError"
  using assms
proof (cases rule: find_redundant_ranges_SomeE)
  case (1 offs r)
  let ?init = "\<lparr>base = 0, redundant = {}\<rparr>"
  have a: "0 \<le> b \<and> b < c \<and> c < int (length fs) \<and>
           getitem fs b = Inr (fs ! nat b) \<and> getitem fs c = Inr (fs ! nat c)"
    if "Comparing b c \<in> set evs" for b c
  proof -
    from scan_loop_events [OF 1(2,3) that] have "0 \<le> b" "b < c" "c < int (length fs)" by auto
    then show ?thesis by (simp add: getitem_def)
  qed
  from scan_loop_no_IndexError [OF 1(2,3)] have "r \<noteq> Inl IndexError" by simp
  with 1(4) have "res \<noteq> Inl IndexError" by (cases r) auto
  with a show ?thesis by blast
qed

text \<open>
  Five equal frames at 2 frames per second: the comparison of frame 3 with frame 4.
\<close>

theorem frame_reads_in_bounds_witness:
  "(1 :: real) \<le> 2 \<and>
   find_redundant_ranges 5
     [[0x0A141E, 0x0A141E, 0x0A141E] :: 32 word list, [0x0A141E, 0x0A141E, 0x0A141E], [0x0A141E, 0x0A141E, 0x0A141E], [0x0A141E, 0x0A141E, 0x0A141E], [0x0A141E, 0x0A141E, 0x0A141E]] 2 =
     Some ([BaseFrame 0, Comparing 0 2, BaseFrame 3, Comparing 3 4], Inr [1, 2, 4]) \<and>
   (0 :: int) \<le> 3 \<and> (3 :: int) < 4 \<and>
   4 < int (length [[0x0A141E, 0x0A141E, 0x0A141E] :: 32 word list, [0x0A141E, 0x0A141E, 0x0A141E], [0x0A141E, 0x0A141E, 0x0A141E], [0x0A141E, 0x0A141E, 0x0A141E], [0x0A141E, 0x0A141E, 0x0A141E]]) \<and>
   (Inr [1, 2, 4] :: error + int list) \<noteq> Inl IndexError"
proof -
  let ?fs = "[[0x0A141E, 0x0A141E, 0x0A141E] :: 32 word list, [0x0A141E, 0x0A141E, 0x0A141E], [0x0A141E, 0x0A141E, 0x0A141E], [0x0A141E, 0x0A141E, 0x0A141E], [0x0A141E, 0x0A141E, 0x0A141E]]"
  have h: "(1 :: real) \<le> 2" by simp
  have e: "find_redundant_ranges 5 ?fs 2 = Some ([BaseFrame 0, Comparing 0 2, BaseFrame 3, Comparing 3 4], Inr [1, 2, 4])"
    by code_simp
  note t = frame_reads_in_bounds [OF h e]
  have m: "Comparing 3 4 \<in> set [BaseFrame 0, Comparing 0 2, BaseFrame 3, Comparing 3 4]" by simp
  from t [THEN conjunct1, rule_format, OF m]
  have a: "(0 :: int) \<le> 3" "(3 :: int) < 4" "4 < int (length ?fs)" by blast+
  from t have r: "(Inr [1, 2, 4] :: error + int list) \<noteq> Inl IndexError" by (rule conjunct2)
  from h e a r show ?thesis by (intro conjI)
qed

end
